theory Spec2Isabelle
  imports Complex_Main "HOL-Library.Multiset" "HOL-Library.AList"
begin

section \<open>Python values shared by the modules\<close>

text \<open>
  The exceptions the modelled code can raise. A function that can raise returns
  \<open>py_error + 'a\<close>, with \<open>Inl\<close> for the exception.
\<close>

datatype py_error =
    ZeroDivisionError
  | ValueError
  | IndexError
  | KeyError
  | AssertionError
  | RuntimeError
  | TypeError

text \<open>
  Python floats are idealised as exact rationals: a division by \<open>0.0\<close> raises
  \<open>ZeroDivisionError\<close> as in Python, rounding error is outside the model.
\<close>

type_synonym pyfloat = rat

text \<open>
  \<^verbatim>\<open>max(xs)\<close>: \<open>ValueError\<close> on an empty sequence, otherwise a scan that replaces
  the current maximum only by a strictly larger item.
\<close>

fun py_max :: "'a::linorder list \<Rightarrow> 'a option" where
  "py_max [] = None"
| "py_max (x # xs) = Some (fold (\<lambda>item m. if m < item then item else m) xs x)"

text \<open>\<^verbatim>\<open>xs.index(v)\<close>: the first position holding \<open>v\<close>, \<open>ValueError\<close> (here \<open>None\<close>) when absent.\<close>

fun py_index :: "'a list \<Rightarrow> 'a \<Rightarrow> nat option" where
  "py_index [] v = None"
| "py_index (x # xs) v = (if x = v then Some 0 else map_option Suc (py_index xs v))"

section \<open>lib/bayes_estimate.py: apportion_counts\<close>

text \<open>
  \<^verbatim>\<open>
  while remaining_counts > 0:
      which_to_increment = residuals.index(max(residuals))
      result[which_to_increment] += 1
      residuals[which_to_increment] -= 1
      remaining_counts -= 1
  return result
  \<close>
\<close>

function apportion_loop :: "pyfloat list \<Rightarrow> int list \<Rightarrow> int \<Rightarrow> py_error + int list" where
  "apportion_loop residuals result remaining_counts =
     (if remaining_counts > 0 then
        (case py_max residuals of
           None \<Rightarrow> Inl ValueError
         | Some m \<Rightarrow>
             (case py_index residuals m of
                None \<Rightarrow> Inl ValueError
              | Some which_to_increment \<Rightarrow>
                  if which_to_increment < length result then
                    apportion_loop
                      (residuals[which_to_increment := residuals ! which_to_increment - 1])
                      (result[which_to_increment := result ! which_to_increment + 1])
                      (remaining_counts - 1)
                  else Inl IndexError))
      else Inr result)"
  by pat_completeness auto
termination
  by (relation "measure (\<lambda>(residuals, result, remaining_counts). nat remaining_counts)") auto

declare apportion_loop.simps [simp del]

text \<open>
  \<^verbatim>\<open>
  def apportion_counts (counts, target_sum):
      divisor = float(target_sum) / sum(counts)
      quotients = (count / divisor for count in counts)
      result = [int(count > 0) for count in counts]
      residuals = [quotient - new_count for quotient, new_count in zip(quotients, result)]
      remaining_counts = target_sum - sum(result)
  \<close>
  The first division raises when \<open>sum(counts)\<close> is 0; the generator \<open>quotients\<close> is
  consumed by the comprehension for \<open>residuals\<close>, where \<open>count / divisor\<close> raises at the
  first element when \<open>divisor\<close> is 0.
\<close>

definition apportion_counts :: "int list \<Rightarrow> int \<Rightarrow> py_error + int list" where
  "apportion_counts counts target_sum =
     (if sum_list counts = 0 then Inl ZeroDivisionError
      else
        let divisor = (of_int target_sum :: pyfloat) / of_int (sum_list counts);
            result = map (\<lambda>count. if count > 0 then 1 else 0) counts
        in if counts \<noteq> [] \<and> divisor = 0 then Inl ZeroDivisionError
           else
             let quotients = map (\<lambda>count. of_int count / divisor) counts;
                 residuals = map (\<lambda>(quotient, new_count). quotient - of_int new_count)
                                 (zip quotients result);
                 remaining_counts = target_sum - sum_list result
             in apportion_loop residuals result remaining_counts)"

section \<open>lib/bayes_estimate.py: computeMedian and deduplicate_counts\<close>

text \<open>
  \<^verbatim>\<open>
  def computeMedian(list):
      list.sort()
      lens = len(list)
      if lens % 2 != 0:
          midl = int(lens / 2)
          res = list[midl]
      else:
          odd = int((lens / 2) -1)
          ev = int((lens / 2))
          res = float(list[odd] + list[ev]) / float(2)
      return res
  \<close>
  \<open>list.sort()\<close> mutates the argument, so the model returns the list as the caller
  finds it afterwards together with the result. On the empty list \<open>odd\<close> is \<open>-1\<close> and
  \<open>list[-1]\<close> raises \<open>IndexError\<close>, after the sort.
\<close>

definition computeMedian :: "pyfloat list \<Rightarrow> pyfloat list \<times> (py_error + pyfloat)" where
  "computeMedian list =
     (let list' = sort list;
          lens = length list'
      in (list',
          if lens mod 2 \<noteq> 0 then Inr (list' ! (lens div 2))
          else if lens = 0 then Inl IndexError
          else Inr ((list' ! (lens div 2 - 1) + list' ! (lens div 2)) / 2)))"

text \<open>
  \<^verbatim>\<open>round(x)\<close> of Python 2 (the module imports \<open>division\<close> from \<open>__future__\<close>):
  to the nearest integer, halves away from zero.
\<close>

definition py_round :: "pyfloat \<Rightarrow> int" where
  "py_round x = (if 0 \<le> x then \<lfloor>x + 1 / 2\<rfloor> else \<lceil>x - 1 / 2\<rceil>)"

text \<open>
  An \<open>OrderedDict\<close> is an association list with distinct keys in insertion order;
  \<open>d[k] = v\<close> is \<open>AList.update k v d\<close>: an existing key keeps its place, a new one is
  appended.
\<close>

type_synonym 'v ordered_dict = "(string \<times> 'v) list"

definition OrderedDict :: "(string \<times> 'v) list \<Rightarrow> 'v ordered_dict" where
  "OrderedDict pairs = fold (\<lambda>(k, v) d. AList.update k v d) pairs []"

text \<open>
  The sampler \<open>MCMC_algorithm_pi.MCMC_algorithm\<close> is external to the repository: it is a
  parameter of the model, called with the arguments the code passes and returning the
  posterior draws of pi.
\<close>

type_synonym sampler =
  "int list \<Rightarrow> nat \<Rightarrow> int \<Rightarrow> pyfloat list \<Rightarrow> pyfloat list \<Rightarrow> pyfloat list
     \<Rightarrow> nat \<Rightarrow> nat \<Rightarrow> nat \<Rightarrow> bool \<Rightarrow> pyfloat list"

text \<open>
  \<^verbatim>\<open>
  total_data = []
  for key, value in umi_counts.items():
      if value > 0:
          data.append(value)
          total_data.append(total_counts[key])
  \<close>
  \<open>total_counts\<close> defaults to \<open>None\<close>, which cannot be subscripted (\<open>TypeError\<close>); a
  key it lacks is a \<open>KeyError\<close>.
\<close>

fun collect_total_data ::
  "int ordered_dict \<Rightarrow> (string \<rightharpoonup> int) option \<Rightarrow> py_error + int list" where
  "collect_total_data [] total_counts = Inr []"
| "collect_total_data ((key, val) # items) total_counts =
     (if val > 0 then
        (case total_counts of
           None \<Rightarrow> Inl TypeError
         | Some table \<Rightarrow>
             (case table key of
                None \<Rightarrow> Inl KeyError
              | Some t \<Rightarrow>
                  (case collect_total_data items total_counts of
                     Inl e \<Rightarrow> Inl e
                   | Inr total_data \<Rightarrow> Inr (t # total_data))))
      else collect_total_data items total_counts)"

text \<open>
  \<^verbatim>\<open>
  umi_true = collections.OrderedDict()
  for umi, raw_count, dedup in zip(umi_counts.keys(), umi_counts.values(), data_dedup):
      if raw_count == 0:
          umi_true[umi] = raw_count
      else:
          umi_true[umi] = int(round(dedup))
          assert(umi_true[umi] > 0)
  return umi_true
  \<close>
  \<open>dedup\<close> is an integer, which \<open>int(round(dedup))\<close> leaves as it is.
\<close>

fun collect_umi_true ::
  "(string \<times> int \<times> int) list \<Rightarrow> int ordered_dict \<Rightarrow> py_error + int ordered_dict" where
  "collect_umi_true [] umi_true = Inr umi_true"
| "collect_umi_true ((umi, raw_count, dedup) # rest) umi_true =
     (if raw_count = 0 then collect_umi_true rest (AList.update umi raw_count umi_true)
      else if dedup > 0 then collect_umi_true rest (AList.update umi dedup umi_true)
      else Inl AssertionError)"

text \<open>
  \<^verbatim>\<open>
  def deduplicate_counts (umi_counts, nsamp, nthin, nburn, uniform=True, total_counts = None):
      data = []
      if uniform:
          for value in umi_counts.values():
              if value > 0: data.append(value)
      else: ... (collect_total_data)
      n = len(data)
      N = sum(data)
      pi_prior = [1., 1.]
      S_prior = [1.] * n
      if uniform:
          C_prior = [1./n] * n
      else:
          N_total = sum(total_data)
          C_prior = [float(1.5 * total_data[j])/N_total for j in range(n)]
      pi_post = MCMC_algorithm_pi.MCMC_algorithm(data, n, N, S_prior, C_prior, pi_prior,
                                                 nsamp, nthin, nburn, True)
      p = computeMedian(pi_post)
      data_dedup = apportion_counts(data, round(p * sum(data)))
      ... (collect_umi_true)
  \<close>
  \<open>1./n\<close> raises when no count is positive; the comprehension for the non-uniform
  prior raises at its first element when \<open>N_total\<close> is 0.
\<close>

definition deduplicate_counts ::
  "sampler \<Rightarrow> int ordered_dict \<Rightarrow> nat \<Rightarrow> nat \<Rightarrow> nat \<Rightarrow> bool
     \<Rightarrow> (string \<rightharpoonup> int) option \<Rightarrow> py_error + int ordered_dict" where
  "deduplicate_counts MCMC_algorithm umi_counts nsamp nthin nburn uniform total_counts =
     (let data = filter (\<lambda>val. val > 0) (map snd umi_counts);
          n = length data;
          N = sum_list data;
          pi_prior = [1, 1];
          S_prior = replicate n 1
      in case (if uniform then
                 (if n = 0 then Inl ZeroDivisionError else Inr (replicate n (1 / of_nat n)))
               else
                 (case collect_total_data umi_counts total_counts of
                    Inl e \<Rightarrow> Inl e
                  | Inr total_data \<Rightarrow>
                      let N_total = sum_list total_data
                      in if n > 0 \<and> N_total = 0 then Inl ZeroDivisionError
                         else Inr (map (\<lambda>t. (3 / 2) * of_int t / of_int N_total) total_data)))
         of
           Inl e \<Rightarrow> Inl e
         | Inr C_prior \<Rightarrow>
             let pi_post = MCMC_algorithm data n N S_prior C_prior pi_prior nsamp nthin nburn True
             in (case snd (computeMedian pi_post) of
                   Inl e \<Rightarrow> Inl e
                 | Inr p \<Rightarrow>
                     (case apportion_counts data (py_round (p * of_int (sum_list data))) of
                        Inl e \<Rightarrow> Inl e
                      | Inr data_dedup \<Rightarrow>
                          collect_umi_true
                            (zip (map fst umi_counts) (zip (map snd umi_counts) data_dedup))
                            [])))"

section \<open>lib/umi_data.py\<close>

text \<open>
  \<^verbatim>\<open>
  alphabet = 'ACGT'
  default_pair_separator = '+'
  re_exclusion = re.compile('[^%s]' % (alphabet + default_pair_separator))
  def umi_is_good (umi):
      return (re_exclusion.search(umi) is None)
  \<close>
  The pattern is one negated character class; \<open>search\<close> returns the first character
  it matches, or \<open>None\<close>.
\<close>

definition alphabet :: string where
  "alphabet = ''ACGT''"

definition default_pair_separator :: string where
  "default_pair_separator = ''+''"

definition re_exclusion :: "char \<Rightarrow> bool" where
  "re_exclusion c = (c \<notin> set (alphabet @ default_pair_separator))"

definition re_search :: "(char \<Rightarrow> bool) \<Rightarrow> string \<Rightarrow> char option" where
  "re_search pat s = find pat s"

definition umi_is_good :: "string \<Rightarrow> bool" where
  "umi_is_good umi = (re_search re_exclusion umi = None)"

text \<open>
  The reading of the specification: a string over \<open>ACGT\<close>, or two such strings joined
  by one \<open>+\<close>. The part before the first \<open>+\<close> and, when there is a \<open>+\<close>, the part after
  it are over the alphabet.
\<close>

definition over_alphabet :: "string \<Rightarrow> bool" where
  "over_alphabet s = list_all (\<lambda>c. c \<in> set alphabet) s"

definition spec_is_valid :: "string \<Rightarrow> bool" where
  "spec_is_valid umi =
     (let first = takeWhile (\<lambda>c. c \<noteq> CHR ''+'') umi;
          rest = dropWhile (\<lambda>c. c \<noteq> CHR ''+'') umi
      in over_alphabet first \<and> (rest = [] \<or> over_alphabet (tl rest)))"

text \<open>
  \<^verbatim>\<open>
  def make_umi_list (length, alphabet = alphabet):
      return (''.join(umi) for umi in itertools.product(alphabet, repeat = length))
  def make_umi_counts (umi_list, counts = None):
      try:
          return collections.OrderedDict((umi, count) for umi, count in zip(umi_list, counts))
      except TypeError:
          return collections.OrderedDict((umi, 0) for umi in umi_list)
  \<close>
\<close>

fun product_repeat :: "'a list \<Rightarrow> nat \<Rightarrow> 'a list list" where
  "product_repeat xs 0 = [[]]"
| "product_repeat xs (Suc n) = concat (map (\<lambda>x. map ((#) x) (product_repeat xs n)) xs)"

definition make_umi_list :: "nat \<Rightarrow> string list" where
  "make_umi_list len = product_repeat alphabet len"

definition make_umi_counts :: "string list \<Rightarrow> int list option \<Rightarrow> int ordered_dict" where
  "make_umi_counts umi_list counts =
     (case counts of
        Some cs \<Rightarrow> OrderedDict (zip umi_list cs)
      | None \<Rightarrow> OrderedDict (map (\<lambda>umi. (umi, 0)) umi_list))"

text \<open>
  String methods used by \<open>get_umi\<close>. \<open>s.split(' ')\<close> cuts at every single space and
  always returns at least one piece; \<open>s.partition(c)[0]\<close> is the text before the first
  \<open>c\<close> (all of \<open>s\<close> without one); \<open>s.rpartition(c)[2]\<close> is the text after the last \<open>c\<close>
  (all of \<open>s\<close> without one); \<open>s[:t]\<close> keeps the first \<open>t\<close> characters, and for a
  negative \<open>t\<close> drops the last \<open>-t\<close>.
\<close>

fun py_split :: "char \<Rightarrow> string \<Rightarrow> string list" where
  "py_split sep [] = [[]]"
| "py_split sep (c # cs) =
     (if c = sep then [] # py_split sep cs
      else (case py_split sep cs of
              [] \<Rightarrow> [[c]]
            | w # ws \<Rightarrow> (c # w) # ws))"

definition partition_head :: "char \<Rightarrow> string \<Rightarrow> string" where
  "partition_head sep s = takeWhile (\<lambda>c. c \<noteq> sep) s"

definition rpartition_tail :: "char \<Rightarrow> string \<Rightarrow> string" where
  "rpartition_tail sep s = rev (takeWhile (\<lambda>c. c \<noteq> sep) (rev s))"

definition slice_to :: "int option \<Rightarrow> string \<Rightarrow> string" where
  "slice_to trunc s =
     (case trunc of
        None \<Rightarrow> s
      | Some t \<Rightarrow> if 0 \<le> t then take (nat t) s else take (nat (int (length s) + t)) s)"

text \<open>
  \<^verbatim>\<open>
  def get_umi (read_name, truncate = None):
      for label in read_name.split(' ')[:2]:
          if label.count(':') in (5, 7):
              umi = label.partition('#')[0].partition('/')[0].rpartition(':')[2]
              return (umi if truncate is None else umi[:truncate])
      raise RuntimeError('read name %s does not contain UMI ...' % label)
  \<close>
\<close>

fun get_umi_loop :: "string list \<Rightarrow> int option \<Rightarrow> py_error + string" where
  "get_umi_loop [] trunc = Inl RuntimeError"
| "get_umi_loop (label # labels) trunc =
     (if count_list label CHR '':'' \<in> {5, 7} then
        let umi = rpartition_tail CHR '':''
                    (partition_head CHR ''/'' (partition_head CHR ''#'' label))
        in Inr (slice_to trunc umi)
      else get_umi_loop labels trunc)"

definition get_umi :: "string \<Rightarrow> int option \<Rightarrow> py_error + string" where
  "get_umi read_name trunc = get_umi_loop (take 2 (py_split CHR '' '' read_name)) trunc"

text \<open>
  The reading of the specification for a qualifying token: the text after its last
  colon, cut at the first \<open>#\<close> or \<open>/\<close> of that final segment.
\<close>

definition spec_token_umi :: "string \<Rightarrow> string" where
  "spec_token_umi label =
     takeWhile (\<lambda>c. c \<noteq> CHR ''#'' \<and> c \<noteq> CHR ''/'') (rpartition_tail CHR '':'' label)"

text \<open>
  The part of a token before its final segment: everything up to and including its last
  colon (empty when the token has no colon).
\<close>

definition before_final_segment :: "string \<Rightarrow> string" where
  "before_final_segment label = rev (dropWhile (\<lambda>c. c \<noteq> CHR '':'') (rev label))"

text \<open>
  An alignment record (\<open>pysam.AlignedSegment\<close>), with the fields the modelled code
  reads or writes.
\<close>

record aligned_segment =
  query_name :: string
  query_qualities :: "int list"
  is_duplicate :: bool

text \<open>
  \<^verbatim>\<open>
  def read_umi_counts_from_reads (in_file, truncate = None):
      umi_totals = umi_length = None
      for read in in_file:
          read_name = read.query_name
          umi = get_umi(read_name, truncate)
          if len(umi) != umi_length:
              if umi_length is None:
                  umi_length = len(umi)
                  umi_totals = make_umi_counts(make_umi_list(umi_length))
              else:
                  raise RuntimeError('different UMI length in read ' + read_name)
          try:
              umi_totals[umi] += 1
          except KeyError:
              pass # exclude bad UMIs
      if umi_totals is None: raise RuntimeError('no valid reads detected')
      return umi_totals
  \<close>
\<close>

definition increment_known :: "int ordered_dict \<Rightarrow> string \<Rightarrow> int ordered_dict" where
  "increment_known umi_totals umi =
     (case map_of umi_totals umi of
        None \<Rightarrow> umi_totals
      | Some c \<Rightarrow> AList.update umi (c + 1) umi_totals)"

fun read_umi_counts_loop ::
  "aligned_segment list \<Rightarrow> int option \<Rightarrow> int ordered_dict option \<Rightarrow> nat option
     \<Rightarrow> py_error + int ordered_dict" where
  "read_umi_counts_loop [] trunc umi_totals umi_length =
     (case umi_totals of None \<Rightarrow> Inl RuntimeError | Some totals \<Rightarrow> Inr totals)"
| "read_umi_counts_loop (read # in_file) trunc umi_totals umi_length =
     (case get_umi (query_name read) trunc of
        Inl e \<Rightarrow> Inl e
      | Inr umi \<Rightarrow>
          if Some (length umi) \<noteq> umi_length then
            (if umi_length = None then
               read_umi_counts_loop in_file trunc
                 (Some (increment_known (make_umi_counts (make_umi_list (length umi)) None) umi))
                 (Some (length umi))
             else Inl RuntimeError)
          else
            (case umi_totals of
               None \<Rightarrow> Inl RuntimeError
             | Some totals \<Rightarrow>
                 read_umi_counts_loop in_file trunc (Some (increment_known totals umi))
                   umi_length))"

definition read_umi_counts_from_reads ::
  "aligned_segment list \<Rightarrow> int option \<Rightarrow> py_error + int ordered_dict" where
  "read_umi_counts_from_reads in_file trunc = read_umi_counts_loop in_file trunc None None"

text \<open>
  Modelled from the spec: \<open>parse_sam.get_quality\<close> is not among the sources; the
  aggregate quality of a record is the sum of its per-base quality values.
\<close>

definition get_quality :: "aligned_segment \<Rightarrow> int" where
  "get_quality read = sum_list (query_qualities read)"

text \<open>
  \<^verbatim>\<open>
  def mark_duplicates (reads, n):
      assert len(reads) >= n
      if n > 0:
          sorted_reads = sorted(reads, key = parse_sam.get_quality)
          for i in range(n): sorted_reads[i].is_duplicate = True
      return reads
  \<close>
  Records are shared objects that the function mutates: a store maps addresses to
  records and \<open>reads\<close> is a list of addresses. \<open>sorted\<close> is stable, as \<open>sort_key\<close> is.
\<close>

type_synonym store = "nat \<Rightarrow> aligned_segment"

definition set_duplicate :: "nat \<Rightarrow> store \<Rightarrow> store" where
  "set_duplicate a h = h(a := (h a)\<lparr>is_duplicate := True\<rparr>)"

definition mark_duplicates :: "store \<Rightarrow> nat list \<Rightarrow> int \<Rightarrow> py_error + store \<times> nat list" where
  "mark_duplicates h reads n =
     (if \<not> int (length reads) \<ge> n then Inl AssertionError
      else if n > 0 then
        let sorted_reads = sort_key (\<lambda>a. get_quality (h a)) reads
        in Inr (fold set_duplicate (take (nat n) sorted_reads) h, reads)
      else Inr (h, reads))"

section \<open>lib/poisson_mixture.py: dedup_cluster\<close>

text \<open>
  Modelled from the spec: the class \<open>umi_data.UmiValues\<close> is not among the sources. It
  is the ordered UMI count table, with iteration over the present (nonzero) entries, the
  count of nonzero entries, its length, and construction from (UMI, count) pairs.
\<close>

definition nonzero_values :: "int ordered_dict \<Rightarrow> int list" where
  "nonzero_values umi_counts = filter (\<lambda>val. val \<noteq> 0) (map snd umi_counts)"

definition nonzero_keys :: "int ordered_dict \<Rightarrow> string list" where
  "nonzero_keys umi_counts = map fst (filter (\<lambda>(umi, val). val \<noteq> 0) umi_counts)"

definition n_nonzero :: "int ordered_dict \<Rightarrow> nat" where
  "n_nonzero umi_counts = length (nonzero_values umi_counts)"

definition UmiValues :: "(string \<times> int) list \<Rightarrow> int ordered_dict" where
  "UmiValues pairs = OrderedDict pairs"

text \<open>
  \<^verbatim>\<open>collections.Counter(xs)\<close>: the number of occurrences of each distinct value, in
  order of first occurrence.
\<close>

definition Counter :: "int list \<Rightarrow> (int \<times> int) list" where
  "Counter xs =
     fold (\<lambda>x c. case map_of c x of None \<Rightarrow> c @ [(x, 1)] | Some k \<Rightarrow> AList.update x (k + 1) c)
       xs []"

text \<open>
  The mixture fit (\<open>select_num_comp\<close>, \<open>mixing_weights\<close>, \<open>argsort\<close>, \<open>argmax\<close>) is
  floating-point numerics on numpy arrays. It reaches the estimate only through the
  integer \<open>num_mol[index]\<close> of each histogram row, which is a parameter of the model:
  \<open>fit kmax data obs i\<close>.
  \<^verbatim>\<open>
  naive_est = umi_counts.n_nonzero()
  max_est = sum(initial_counts)
  counter = collections.Counter(initial_counts)
  counter[0] = len(umi_counts) - naive_est
  data = list(counter.values())
  obs = list(counter.keys())
  if data.size <= 2:
    est = naive_est
  else:
    est = 0
    for i in range(data.size):
      if obs[i] == 0: continue
      index = np.argmax(mixing_mat[i,...])
      est += num_mol[index] * data[i]
    if est <= naive_est: est = naive_est
    elif est >= max_est: est = max_est
    else: est = int(round(est))
  \<close>
\<close>

type_synonym mixture_fit = "nat \<Rightarrow> int list \<Rightarrow> int list \<Rightarrow> nat \<Rightarrow> int"

definition cluster_estimate :: "mixture_fit \<Rightarrow> int ordered_dict \<Rightarrow> nat \<Rightarrow> int" where
  "cluster_estimate fit umi_counts kmax =
     (let initial_counts = nonzero_values umi_counts;
          naive_est = int (n_nonzero umi_counts);
          max_est = sum_list initial_counts;
          counter = AList.update 0 (int (length umi_counts) - naive_est) (Counter initial_counts);
          data = map snd counter;
          obs = map fst counter
      in if length data \<le> 2 then naive_est
         else
           let est = fold (\<lambda>i est. if obs ! i = 0 then est else est + fit kmax data obs i * data ! i)
                       [0 ..< length data] 0
           in if est \<le> naive_est then naive_est
              else if est \<ge> max_est then max_est
              else est)"

text \<open>
  \<^verbatim>\<open>
  def dedup_cluster(umi_counts, kmax = DEFAULT_KMAX):
    initial_counts = list(umi_counts.nonzero_values())
    if max(initial_counts) == 1: return(umi_counts)
    ...
    data_dedup = apportion_counts.apportion_counts(initial_counts, est)
    return umi_data.UmiValues(zip(umi_counts.nonzero_keys(), data_dedup))
  \<close>
\<close>

definition dedup_cluster ::
  "mixture_fit \<Rightarrow> int ordered_dict \<Rightarrow> nat \<Rightarrow> py_error + int ordered_dict" where
  "dedup_cluster fit umi_counts kmax =
     (let initial_counts = nonzero_values umi_counts
      in case py_max initial_counts of
           None \<Rightarrow> Inl ValueError
         | Some m \<Rightarrow>
             if m = 1 then Inr umi_counts
             else
               (case apportion_counts initial_counts (cluster_estimate fit umi_counts kmax) of
                  Inl e \<Rightarrow> Inl e
                | Inr data_dedup \<Rightarrow> Inr (UmiValues (zip (nonzero_keys umi_counts) data_dedup))))"

section \<open>dedup.py: the two counts of usable reads\<close>

text \<open>
  \<^verbatim>\<open>
  for read in in_bam:
      if not parse_sam.read_is_good(read): continue
      umi = umi_data.get_umi(read.query_name)
      if not umi_data.umi_is_good(umi): continue
      ...
      read_counter['read'] += 1
  \<close>
  The second pass, projected on \<open>read_counter['read']\<close>, which nothing else in the
  loop writes. \<open>parse_sam.read_is_good\<close> is not among the sources and is a parameter.
\<close>

fun second_pass_reads ::
  "(aligned_segment \<Rightarrow> bool) \<Rightarrow> aligned_segment list \<Rightarrow> nat \<Rightarrow> py_error + nat" where
  "second_pass_reads read_is_good [] counter = Inr counter"
| "second_pass_reads read_is_good (read # in_bam) counter =
     (if \<not> read_is_good read then second_pass_reads read_is_good in_bam counter
      else
        (case get_umi (query_name read) None of
           Inl e \<Rightarrow> Inl e
         | Inr umi \<Rightarrow>
             if \<not> umi_is_good umi then second_pass_reads read_is_good in_bam counter
             else second_pass_reads read_is_good in_bam (counter + 1)))"

text \<open>
  \<^verbatim>\<open>
  umi_totals = umi_data.read_umi_counts_from_reads(in_bam)    # no UMI table given
  ...
  if args.umi_table is None:
      assert sum(umi_totals.values()) == read_counter['read']
  \<close>
\<close>

definition usable_reads_assertion ::
  "(aligned_segment \<Rightarrow> bool) \<Rightarrow> aligned_segment list \<Rightarrow> py_error + unit" where
  "usable_reads_assertion read_is_good in_bam =
     (case read_umi_counts_from_reads in_bam None of
        Inl e \<Rightarrow> Inl e
      | Inr umi_totals \<Rightarrow>
          (case second_pass_reads read_is_good in_bam 0 of
             Inl e \<Rightarrow> Inl e
           | Inr read_counter \<Rightarrow>
               if sum_list (map snd umi_totals) = int read_counter then Inr ()
               else Inl AssertionError))"

section \<open>Properties of apportion_counts\<close>

lemma py_max_mem: "xs \<noteq> [] \<Longrightarrow> \<exists>m. py_max xs = Some m \<and> m \<in> set xs"
proof (cases xs)
  case Nil
  assume "xs \<noteq> []"
  with Nil show ?thesis by simp
next
  case (Cons x ys)
  have "fold (\<lambda>item m. if m < item then item else m) ys a \<in> insert a (set ys)" for a
    by (induction ys arbitrary: a) (auto split: if_splits)
  with Cons show ?thesis by simp
qed

lemma py_index_mem: "v \<in> set xs \<Longrightarrow> \<exists>i. py_index xs v = Some i \<and> i < length xs \<and> xs ! i = v"
  by (induction xs) auto

lemma sum_list_bump:
  fixes xs :: "int list"
  shows "i < length xs \<Longrightarrow> sum_list (xs[i := xs ! i + 1]) = sum_list xs + 1"
proof (induction xs arbitrary: i)
  case Nil
  then show ?case by simp
next
  case (Cons x xs)
  then show ?case by (cases i) auto
qed

lemma apportion_loop_spec:
  "length residuals = length result \<Longrightarrow> residuals \<noteq> [] \<Longrightarrow>
   \<exists>r. apportion_loop residuals result remaining_counts = Inr r
     \<and> length r = length result
     \<and> sum_list r = sum_list result + max 0 remaining_counts
     \<and> (\<forall>i < length result. result ! i \<le> r ! i)"
proof (induction residuals result remaining_counts rule: apportion_loop.induct)
  case (1 residuals result remaining_counts)
  show ?case
  proof (cases "remaining_counts > 0")
    case False
    then show ?thesis by (simp add: apportion_loop.simps[of residuals result remaining_counts])
  next
    case True
    from py_max_mem[OF "1.prems"(2)]
    obtain m where m: "py_max residuals = Some m" "m \<in> set residuals"
      by (elim exE conjE)
    from py_index_mem[OF m(2)]
    obtain w where w: "py_index residuals m = Some w" "w < length residuals"
      by (elim exE conjE)
    with "1.prems" have wl: "w < length result" by simp
    let ?res' = "residuals[w := residuals ! w - 1]"
    let ?result' = "result[w := result ! w + 1]"
    have "length ?res' = length ?result'" "?res' \<noteq> []"
      using "1.prems" by auto
    from "1.IH"[OF True m(1) w(1) wl this]
    obtain r where r: "apportion_loop ?res' ?result' (remaining_counts - 1) = Inr r"
      "length r = length ?result'"
      "sum_list r = sum_list ?result' + max 0 (remaining_counts - 1)"
      "\<forall>i < length ?result'. ?result' ! i \<le> r ! i"
      by blast
    have eq: "apportion_loop residuals result remaining_counts = Inr r"
      using True m(1) w(1) wl r(1)
      by (simp add: apportion_loop.simps[of residuals result remaining_counts])
    have len: "length r = length result" using r(2) by simp
    have sum: "sum_list r = sum_list result + max 0 remaining_counts"
      using r(3) True sum_list_bump[OF wl] by simp
    have mono: "\<forall>i < length result. result ! i \<le> r ! i"
    proof (intro allI impI)
      fix i assume i: "i < length result"
      then have "?result' ! i \<le> r ! i" using r(4) by simp
      moreover have "result ! i \<le> ?result' ! i"
        using i by (cases "i = w") auto
      ultimately show "result ! i \<le> r ! i" by linarith
    qed
    from eq len sum mono show ?thesis by blast
  qed
qed

lemma seeds_sum:
  "sum_list (map (\<lambda>count. if count > 0 then 1 else 0) counts) = int (length (filter (\<lambda>c. 0 < c) counts))"
  for counts :: "int list"
  by (induction counts) auto

lemma apportion_counts_returns:
  assumes s: "sum_list counts \<noteq> 0" and t: "target_sum \<noteq> 0"
  shows "\<exists>r. apportion_counts counts target_sum = Inr r
           \<and> length r = length counts
           \<and> (\<forall>i < length counts. (if counts ! i > 0 then 1 else 0) \<le> r ! i)
           \<and> sum_list r = max target_sum (int (length (filter (\<lambda>c. 0 < c) counts)))"
proof -
  let ?result = "map (\<lambda>count. if count > 0 then 1 else (0::int)) counts"
  let ?divisor = "(of_int target_sum :: pyfloat) / of_int (sum_list counts)"
  let ?residuals = "map (\<lambda>(quotient, new_count). quotient - of_int new_count)
                        (zip (map (\<lambda>count. of_int count / ?divisor) counts) ?result)"
  from t s have d: "?divisor \<noteq> 0" by simp
  from s have ne: "counts \<noteq> []" by auto
  have unfold: "apportion_counts counts target_sum
                  = apportion_loop ?residuals ?result (target_sum - sum_list ?result)"
    using s d by (simp add: apportion_counts_def Let_def)
  have "length ?residuals = length ?result" "?residuals \<noteq> []"
    using ne by simp_all
  from apportion_loop_spec[OF this, of "target_sum - sum_list ?result"]
  obtain r where r: "apportion_loop ?residuals ?result (target_sum - sum_list ?result) = Inr r"
      "length r = length ?result"
      "sum_list r = sum_list ?result + max 0 (target_sum - sum_list ?result)"
      "\<forall>i < length ?result. ?result ! i \<le> r ! i"
    by (elim exE conjE)
  have a: "apportion_counts counts target_sum = Inr r" using unfold r(1) by simp
  have b: "length r = length counts" using r(2) by simp
  have c: "\<forall>i < length counts. (if counts ! i > 0 then 1 else 0) \<le> r ! i"
    using r(4) by simp
  have e: "sum_list r = max target_sum (int (length (filter (\<lambda>c. 0 < c) counts)))"
    using r(3) by (simp add: seeds_sum)
  from a b c e show ?thesis by (intro exI conjI)
qed

text \<open>
  Claim C1, as amended. For every list of non-negative integer counts with at least one
  positive entry and every integer \<open>target_sum\<close> with \<open>1 \<le> target_sum \<le> sum(counts)\<close>,
  \<open>apportion_counts\<close> returns an integer list of the same length and order as the
  counts, every entry is at least 0 and is 0 only where the input count is 0, and the
  entries sum to the larger of \<open>target_sum\<close> and the number of positive counts: exactly
  to \<open>target_sum\<close> whenever \<open>target_sum\<close> is at least the number of positive counts.
  The result does not depend on which entry the maximum of the residuals selects.
\<close>

theorem apportion_counts_total:
  assumes nonneg: "\<forall>c \<in> set counts. 0 \<le> c"
      and pos: "\<exists>c \<in> set counts. 0 < c"
      and lo: "1 \<le> target_sum"
      and hi: "target_sum \<le> sum_list counts"
  shows "\<exists>r. apportion_counts counts target_sum = Inr r
           \<and> length r = length counts
           \<and> (\<forall>i < length counts. 0 \<le> r ! i \<and> (r ! i = 0 \<longrightarrow> counts ! i = 0))
           \<and> sum_list r = max target_sum (int (length (filter (\<lambda>c. 0 < c) counts)))"
proof -
  from lo hi have s: "sum_list counts \<noteq> 0" and t: "target_sum \<noteq> 0" by linarith+
  from apportion_counts_returns[OF s t]
  obtain r where r: "apportion_counts counts target_sum = Inr r"
      "length r = length counts"
      "\<forall>i < length counts. (if counts ! i > 0 then 1 else 0) \<le> r ! i"
      "sum_list r = max target_sum (int (length (filter (\<lambda>c. 0 < c) counts)))"
    by (elim exE conjE)
  have c: "\<forall>i < length counts. 0 \<le> r ! i \<and> (r ! i = 0 \<longrightarrow> counts ! i = 0)"
  proof (intro allI impI)
    fix i assume i: "i < length counts"
    then have le: "(if counts ! i > 0 then 1 else 0) \<le> r ! i" using r(3) by simp
    from i nonneg have "0 \<le> counts ! i" by simp
    with le show "0 \<le> r ! i \<and> (r ! i = 0 \<longrightarrow> counts ! i = 0)"
      by (auto split: if_splits)
  qed
  from r(1) r(2) c r(4) show ?thesis by (intro exI conjI)
qed

theorem apportion_counts_total_witness:
  "\<exists>r. apportion_counts [10, 1, 1] 6 = Inr r \<and> length r = 3 \<and> sum_list r = 6"
  using apportion_counts_total[of "[10, 1, 1]" 6] by (auto simp: numeral_3_eq_3)

text \<open>
  Claim C1 as stated fails below the number of positive counts: every positive count is
  seeded with 1 and the loop only adds, so for the counts \<open>[5, 3]\<close> and the target 1 the
  result is \<open>[1, 1]\<close>, which sums to 2.
\<close>

theorem apportion_counts_counterexample:
  "apportion_counts [5, 3] 1 = Inr [1, 1] \<and> sum_list [1, 1 :: int] \<noteq> 1"
  by (simp add: apportion_counts_def apportion_loop.simps)

section \<open>Properties of umi_is_good\<close>

lemma find_None_iff_all: "find P xs = None \<longleftrightarrow> (\<forall>x \<in> set xs. \<not> P x)"
  by (induction xs) auto

lemma over_alphabet_iff: "over_alphabet s \<longleftrightarrow> set s \<subseteq> {CHR ''A'', CHR ''C'', CHR ''G'', CHR ''T''}"
  by (auto simp: over_alphabet_def alphabet_def list_all_iff)

lemma umi_is_good_chars:
  "umi_is_good umi \<longleftrightarrow>
     (\<forall>c \<in> set umi. c \<in> {CHR ''A'', CHR ''C'', CHR ''G'', CHR ''T'', CHR ''+''})"
  by (auto simp: umi_is_good_def re_search_def re_exclusion_def find_None_iff_all
                 alphabet_def default_pair_separator_def)

lemma spec_is_valid_good: "spec_is_valid umi \<Longrightarrow> umi_is_good umi"
proof -
  assume a: "spec_is_valid umi"
  let ?P = "\<lambda>c. c \<noteq> CHR ''+''"
  have split: "umi = takeWhile ?P umi @ dropWhile ?P umi" by simp
  from a have f: "over_alphabet (takeWhile ?P umi)"
    and r: "dropWhile ?P umi = [] \<or> over_alphabet (tl (dropWhile ?P umi))"
    by (simp_all add: spec_is_valid_def Let_def)
  have hd: "dropWhile ?P umi \<noteq> [] \<Longrightarrow> hd (dropWhile ?P umi) = CHR ''+''"
    using hd_dropWhile[of ?P umi] by simp
  have "set (dropWhile ?P umi) \<subseteq> {CHR ''A'', CHR ''C'', CHR ''G'', CHR ''T'', CHR ''+''}"
  proof (cases "dropWhile ?P umi")
    case Nil then show ?thesis by (simp only: list.set empty_subsetI)
  next
    case (Cons x xs)
    with hd have "x = CHR ''+''" by simp
    moreover from r Cons have "over_alphabet xs" by simp
    ultimately show ?thesis using Cons by (auto simp: over_alphabet_iff)
  qed
  moreover have "set (takeWhile ?P umi) \<subseteq> {CHR ''A'', CHR ''C'', CHR ''G'', CHR ''T'', CHR ''+''}"
    using f by (auto simp: over_alphabet_iff)
  moreover have "set umi = set (takeWhile ?P umi) \<union> set (dropWhile ?P umi)"
    by (metis set_append takeWhile_dropWhile_id)
  ultimately have "set umi \<subseteq> {CHR ''A'', CHR ''C'', CHR ''G'', CHR ''T'', CHR ''+''}"
    by (simp only: Un_subset_iff)
  then show ?thesis by (auto simp: umi_is_good_chars)
qed

text \<open>
  Claim C8, as amended. \<open>umi_is_good umi\<close> is true exactly when every character of
  \<open>umi\<close> is one of \<open>A\<close>, \<open>C\<close>, \<open>G\<close>, \<open>T\<close> and \<open>+\<close>, with no bound on the number of
  \<open>+\<close> and no constraint on where they stand. Every string over \<open>ACGT\<close>, and every two
  such strings joined by one \<open>+\<close>, is accepted.
\<close>

theorem umi_is_good_iff:
  "(umi_is_good umi \<longleftrightarrow>
      (\<forall>c \<in> set umi. c \<in> {CHR ''A'', CHR ''C'', CHR ''G'', CHR ''T'', CHR ''+''}))
   \<and> (spec_is_valid umi \<longrightarrow> umi_is_good umi)"
  using umi_is_good_chars[of umi] spec_is_valid_good[of umi] by simp

theorem umi_is_good_iff_witness:
  "umi_is_good ''AC+GT'' \<and> \<not> umi_is_good ''ACNT'' \<and> spec_is_valid ''AC+GT''"
  using umi_is_good_iff[of "''AC+GT''"] umi_is_good_iff[of "''ACNT''"]
  by (simp add: spec_is_valid_def over_alphabet_def alphabet_def)

text \<open>
  Claim C8 as stated fails on a string with two separators: \<open>A++C\<close> is accepted, and it
  is neither a string over \<open>ACGT\<close> nor two such strings joined by one \<open>+\<close>.
\<close>

theorem umi_is_good_counterexample:
  "umi_is_good ''A++C'' \<and> \<not> spec_is_valid ''A++C''"
  by (simp add: umi_is_good_def re_search_def re_exclusion_def spec_is_valid_def
                over_alphabet_def alphabet_def default_pair_separator_def)

section \<open>Properties of get_umi\<close>

lemma takeWhile_twice:
  "takeWhile P (takeWhile Q xs) = takeWhile (\<lambda>x. Q x \<and> P x) xs"
  by (induction xs) auto

lemma partition_heads:
  "partition_head CHR ''/'' (partition_head CHR ''#'' label)
     = takeWhile (\<lambda>c. c \<noteq> CHR ''#'' \<and> c \<noteq> CHR ''/'') label"
  by (simp add: partition_head_def takeWhile_twice)

lemma get_umi_loop_find:
  "get_umi_loop labels trunc =
     (case find (\<lambda>label. count_list label CHR '':'' \<in> {5, 7}) labels of
        None \<Rightarrow> Inl RuntimeError
      | Some label \<Rightarrow>
          Inr (slice_to trunc
                 (rpartition_tail CHR '':''
                    (takeWhile (\<lambda>c. c \<noteq> CHR ''#'' \<and> c \<noteq> CHR ''/'') label))))"
  by (induction labels) (simp_all add: partition_heads Let_def)

lemma label_segments: "label = before_final_segment label @ rpartition_tail CHR '':'' label"
  unfolding before_final_segment_def rpartition_tail_def
  by (metis rev_append rev_rev_ident takeWhile_dropWhile_id)

lemma final_segment_no_colon: "CHR '':'' \<notin> set (rpartition_tail CHR '':'' label)"
proof
  assume "CHR '':'' \<in> set (rpartition_tail CHR '':'' label)"
  then have "CHR '':'' \<in> set (takeWhile (\<lambda>c. c \<noteq> CHR '':'') (rev label))"
    by (simp add: rpartition_tail_def)
  then show False using set_takeWhileD by fastforce
qed

lemma before_final_segment_last:
  "before_final_segment label \<noteq> [] \<Longrightarrow> last (before_final_segment label) = CHR '':''"
proof -
  assume ne: "before_final_segment label \<noteq> []"
  let ?d = "dropWhile (\<lambda>c. c \<noteq> CHR '':'') (rev label)"
  from ne have d: "?d \<noteq> []" by (simp add: before_final_segment_def)
  then have "hd ?d = CHR '':''" using hd_dropWhile[of "\<lambda>c. c \<noteq> CHR '':''" "rev label"] by simp
  with d show ?thesis by (simp add: before_final_segment_def last_rev)
qed

lemma rpartition_tail_append:
  assumes "CHR '':'' \<notin> set t" and "a = [] \<or> last a = CHR '':''"
  shows "rpartition_tail CHR '':'' (a @ t) = t"
proof -
  have t: "takeWhile (\<lambda>c. c \<noteq> CHR '':'') (rev t @ rev a)
             = rev t @ takeWhile (\<lambda>c. c \<noteq> CHR '':'') (rev a)"
    using assms(1) by (intro takeWhile_append2) auto
  have "takeWhile (\<lambda>c. c \<noteq> CHR '':'') (rev a) = []"
  proof (cases "a = []")
    case True then show ?thesis by simp
  next
    case False
    with assms(2) have "hd (rev a) = CHR '':''" by (simp add: hd_rev)
    with False show ?thesis by (cases "rev a") auto
  qed
  with t show ?thesis by (simp add: rpartition_tail_def)
qed

lemma code_agrees_with_spec_token:
  assumes "\<forall>c \<in> set (before_final_segment label). c \<noteq> CHR ''#'' \<and> c \<noteq> CHR ''/''"
  shows "rpartition_tail CHR '':'' (takeWhile (\<lambda>c. c \<noteq> CHR ''#'' \<and> c \<noteq> CHR ''/'') label)
           = spec_token_umi label"
proof -
  let ?P = "\<lambda>c. c \<noteq> CHR ''#'' \<and> c \<noteq> CHR ''/''"
  let ?a = "before_final_segment label"
  let ?b = "rpartition_tail CHR '':'' label"
  have "takeWhile ?P (?a @ ?b) = ?a @ takeWhile ?P ?b"
    using assms by (intro takeWhile_append2) auto
  then have tw: "takeWhile ?P label = ?a @ takeWhile ?P ?b"
    using label_segments[of label] by simp
  have "CHR '':'' \<notin> set (takeWhile ?P ?b)"
    using final_segment_no_colon[of label] set_takeWhileD by fastforce
  moreover have "?a = [] \<or> last ?a = CHR '':''"
    using before_final_segment_last[of label] by auto
  ultimately have "rpartition_tail CHR '':'' (?a @ takeWhile ?P ?b) = takeWhile ?P ?b"
    by (rule rpartition_tail_append)
  with tw show ?thesis by (simp add: spec_token_umi_def)
qed

text \<open>
  Claim C3, as amended. For every read name, \<open>get_umi\<close> examines at most the first two
  space-separated tokens. With no token among them that contains exactly 5 or exactly 7
  colons it fails with a \<open>RuntimeError\<close>. Otherwise it takes the first such token,
  discards everything from the first \<open>#\<close> or \<open>/\<close> of the token onward, and returns the
  text after the last colon of what remains, cut to its first \<open>truncate\<close> characters
  when a non-negative \<open>truncate\<close> is given. Whenever no \<open>#\<close> or \<open>/\<close> stands before the
  token's last colon, that is the text after the last colon of the token with everything
  from a \<open>#\<close> or \<open>/\<close> of that final segment onward discarded.
\<close>

theorem get_umi_spec:
  "get_umi read_name trunc =
     (case find (\<lambda>label. count_list label CHR '':'' \<in> {5, 7})
             (take 2 (py_split CHR '' '' read_name)) of
        None \<Rightarrow> Inl RuntimeError
      | Some label \<Rightarrow>
          Inr (slice_to trunc
                 (rpartition_tail CHR '':''
                    (takeWhile (\<lambda>c. c \<noteq> CHR ''#'' \<and> c \<noteq> CHR ''/'') label))))
   \<and> (\<forall>label. (\<forall>c \<in> set (before_final_segment label). c \<noteq> CHR ''#'' \<and> c \<noteq> CHR ''/'') \<longrightarrow>
         rpartition_tail CHR '':'' (takeWhile (\<lambda>c. c \<noteq> CHR ''#'' \<and> c \<noteq> CHR ''/'') label)
           = spec_token_umi label)
   \<and> (\<forall>umi. slice_to None umi = umi)
   \<and> (\<forall>t umi. 0 \<le> t \<longrightarrow> slice_to (Some t) umi = take (nat t) umi)"
  using code_agrees_with_spec_token
  by (simp add: get_umi_def get_umi_loop_find slice_to_def)

theorem get_umi_spec_witness:
  "get_umi ''SRR1 M:1:FC:1:1101:10:20:ACGTACGT#0/1 x:y'' (Some 6) = Inr ''ACGTAC''
   \<and> get_umi ''M:1:FC:1:1101:10:20 1:N:0:ACGT'' None = Inl RuntimeError
   \<and> spec_token_umi ''M:1:FC:1:1101:10:20:ACGTACGT#0/1'' = ''ACGTACGT''"
  using get_umi_spec[of "''SRR1 M:1:FC:1:1101:10:20:ACGTACGT#0/1 x:y''" "Some 6"]
        get_umi_spec[of "''M:1:FC:1:1101:10:20 1:N:0:ACGT''" None]
  by (simp add: spec_token_umi_def rpartition_tail_def before_final_segment_def)

text \<open>
  Claim C3 as stated fails when a \<open>/\<close> or \<open>#\<close> stands before the last colon of the
  token: the token \<open>a/b:c:d:e:f:ACGT\<close> has 5 colons and its final segment is \<open>ACGT\<close>,
  but the whole token is cut at the \<open>/\<close> first and \<open>get_umi\<close> returns \<open>a\<close>.
\<close>

theorem get_umi_counterexample:
  "get_umi ''a/b:c:d:e:f:ACGT'' None = Inr ''a''
   \<and> count_list ''a/b:c:d:e:f:ACGT'' CHR '':'' = 5
   \<and> spec_token_umi ''a/b:c:d:e:f:ACGT'' = ''ACGT''"
  by (simp add: get_umi_def partition_head_def rpartition_tail_def slice_to_def spec_token_umi_def)

section \<open>Properties of mark_duplicates\<close>

lemma fold_set_duplicate_other:
  "a \<notin> set xs \<Longrightarrow> fold set_duplicate xs h a = h a"
  by (induction xs arbitrary: h) (auto simp: set_duplicate_def)

lemma fold_set_duplicate_flag:
  "is_duplicate (fold set_duplicate xs h a) \<longleftrightarrow> a \<in> set xs \<or> is_duplicate (h a)"
  by (induction xs arbitrary: h) (auto simp: set_duplicate_def)

lemma fold_set_duplicate_fields:
  "query_name (fold set_duplicate xs h a) = query_name (h a)
   \<and> query_qualities (fold set_duplicate xs h a) = query_qualities (h a)"
  by (induction xs arbitrary: h) (auto simp: set_duplicate_def)

lemma sorted_take_le_drop:
  assumes "sorted (map f xs)" "a \<in> set (take n xs)" "b \<in> set (drop n xs)"
  shows "f a \<le> f b"
proof -
  have "sorted (map f (take n xs) @ map f (drop n xs))"
    using assms(1) by (simp flip: map_append)
  then have "\<forall>x \<in> set (map f (take n xs)). \<forall>y \<in> set (map f (drop n xs)). x \<le> y"
    unfolding sorted_append by (elim conjE)
  with assms(2,3) show ?thesis by auto
qed

lemma mark_duplicates_flags:
  assumes d: "distinct reads" and pos: "0 < n" and le: "n \<le> int (length reads)"
  shows "\<exists>h'. mark_duplicates h reads n = Inr (h', reads)
           \<and> (let sorted_reads = sort_key (\<lambda>a. get_quality (h a)) reads;
                   flagged = set (take (nat n) sorted_reads)
               in sorted (map (\<lambda>a. get_quality (h a)) sorted_reads)
                  \<and> mset sorted_reads = mset reads
                  \<and> (\<forall>k. filter (\<lambda>a. get_quality (h a) = k) sorted_reads
                            = filter (\<lambda>a. get_quality (h a) = k) reads)
                  \<and> flagged \<subseteq> set reads
                  \<and> card flagged = nat n
                  \<and> (\<forall>a \<in> flagged. \<forall>b \<in> set reads - flagged.
                        get_quality (h a) \<le> get_quality (h b))
                  \<and> (\<forall>a \<in> flagged. is_duplicate (h' a))
                  \<and> (\<forall>a. a \<notin> flagged \<longrightarrow> h' a = h a)
                  \<and> (\<forall>a. get_quality (h' a) = get_quality (h a)))"
proof -
  let ?q = "\<lambda>a. get_quality (h a)"
  let ?s = "sort_key ?q reads"
  let ?F = "set (take (nat n) ?s)"
  let ?h' = "fold set_duplicate (take (nat n) ?s) h"
  have run: "mark_duplicates h reads n = Inr (?h', reads)"
    using pos le by (simp add: mark_duplicates_def Let_def)
  have srt: "sorted (map ?q ?s)" by simp
  have perm: "mset ?s = mset reads" by simp
  have stable: "\<forall>k. filter (\<lambda>a. ?q a = k) ?s = filter (\<lambda>a. ?q a = k) reads"
    by (simp add: sort_key_stable)
  have sub: "?F \<subseteq> set reads"
    using set_take_subset[of "nat n" ?s] by simp
  have "distinct (take (nat n) ?s)" using d by simp
  then have "card ?F = length (take (nat n) ?s)" by (rule distinct_card)
  with le have card: "card ?F = nat n" by simp
  have low: "\<forall>a \<in> ?F. \<forall>b \<in> set reads - ?F. ?q a \<le> ?q b"
  proof (intro ballI)
    fix a b assume a: "a \<in> ?F" and b: "b \<in> set reads - ?F"
    have "set reads = set (take (nat n) ?s) \<union> set (drop (nat n) ?s)"
      by (metis append_take_drop_id set_append set_sort)
    with b have "b \<in> set (drop (nat n) ?s)" by auto
    with srt a show "?q a \<le> ?q b" by (rule sorted_take_le_drop)
  qed
  have flag: "\<forall>a \<in> ?F. is_duplicate (?h' a)"
    by (simp add: fold_set_duplicate_flag)
  have frame: "\<forall>a. a \<notin> ?F \<longrightarrow> ?h' a = h a"
    by (simp add: fold_set_duplicate_other)
  have qual: "\<forall>a. get_quality (?h' a) = get_quality (h a)"
    by (simp add: get_quality_def fold_set_duplicate_fields)
  show ?thesis
    unfolding Let_def
    using run srt perm stable sub card low flag frame qual
    by (intro exI[of _ ?h'] conjI)
qed

lemma mark_duplicates_noop: "0 \<le> int (length reads) \<Longrightarrow> mark_duplicates h reads 0 = Inr (h, reads)"
  by (simp add: mark_duplicates_def)

lemma mset_singleton_list: "mset xs = {#k#} \<Longrightarrow> xs = [k]"
  by (cases xs) auto

lemma sort_three:
  fixes f :: "'a \<Rightarrow> int"
  assumes m: "mset reads = {#a, b, c#}" and dist: "distinct [a, b, c]"
      and qa: "f a = 10" and qb: "f b = 30" and qc: "f c = 20"
  shows "sort_key f reads = [a, c, b]"
proof (rule properties_for_sort_key)
  show "mset [a, c, b] = mset reads" using m by simp
  show "sorted (map f [a, c, b])" using qa qb qc by simp
next
  fix k assume k: "k \<in> set [a, c, b]"
  from k consider "k = a" | "k = c" | "k = b" by auto
  then have "mset (filter (\<lambda>x. f k = f x) reads) = {#k#}"
  proof cases
    case 1 then show ?thesis using m qa qb qc by simp
  next
    case 2 then show ?thesis using m qa qb qc by simp
  next
    case 3 then show ?thesis using m qa qb qc by simp
  qed
  then have "filter (\<lambda>x. f k = f x) reads = [k]" by (rule mset_singleton_list)
  moreover have "filter (\<lambda>x. f k = f x) [a, c, b] = [k]" using k qa qb qc by auto
  ultimately show "filter (\<lambda>x. f k = f x) [a, c, b] = filter (\<lambda>x. f k = f x) reads" by simp
qed

lemma mark_duplicates_three:
  assumes m: "mset reads = {#a, b, c#}" and dist: "distinct [a, b, c]"
      and qa: "get_quality (h a) = 10" and qb: "get_quality (h b) = 30"
      and qc: "get_quality (h c) = 20"
      and nb: "\<not> is_duplicate (h b)"
  shows "\<exists>h'. mark_duplicates h reads 2 = Inr (h', reads)
           \<and> is_duplicate (h' a) \<and> \<not> is_duplicate (h' b) \<and> is_duplicate (h' c)"
proof -
  have s: "sort_key (\<lambda>x. get_quality (h x)) reads = [a, c, b]"
    by (rule sort_three[OF m dist qa qb qc])
  from m have "size (mset reads) = 3" by simp
  then have len: "length reads = 3" by simp
  have run: "mark_duplicates h reads 2 = Inr (fold set_duplicate [a, c] h, reads)"
    using len by (simp add: mark_duplicates_def s numeral_2_eq_2)
  have "is_duplicate (fold set_duplicate [a, c] h a)"
       "\<not> is_duplicate (fold set_duplicate [a, c] h b)"
       "is_duplicate (fold set_duplicate [a, c] h c)"
    using dist nb by (simp_all add: set_duplicate_def)
  with run show ?thesis by (intro exI conjI)
qed

text \<open>
  Claim C6. For every collection of distinct records and every \<open>n\<close> with
  \<open>n \<le> len(reads)\<close>: when \<open>n > 0\<close>, \<open>mark_duplicates\<close> sorts the records by ascending
  aggregate quality with a stable sort, sets the duplicate flag on the first \<open>n\<close> of that
  order, which are \<open>n\<close> records of the collection none of which has a higher quality
  than a record left out, leaves every other record as it was (so a flag that was false
  stays false), and returns the same collection; when \<open>n = 0\<close> nothing changes. For
  three records with aggregate qualities 10, 30 and 20 in any order and \<open>n = 2\<close>, the
  record of quality 30 stays non-duplicate and the other two are flagged.
\<close>

theorem mark_duplicates_spec:
  assumes d: "distinct reads" and le: "n \<le> int (length reads)"
  shows "(0 < n \<longrightarrow>
          (\<exists>h'. mark_duplicates h reads n = Inr (h', reads)
             \<and> (let sorted_reads = sort_key (\<lambda>a. get_quality (h a)) reads;
                     flagged = set (take (nat n) sorted_reads)
                 in sorted (map (\<lambda>a. get_quality (h a)) sorted_reads)
                    \<and> mset sorted_reads = mset reads
                    \<and> (\<forall>k. filter (\<lambda>a. get_quality (h a) = k) sorted_reads
                              = filter (\<lambda>a. get_quality (h a) = k) reads)
                    \<and> flagged \<subseteq> set reads
                    \<and> card flagged = nat n
                    \<and> (\<forall>a \<in> flagged. \<forall>b \<in> set reads - flagged.
                          get_quality (h a) \<le> get_quality (h b))
                    \<and> (\<forall>a \<in> flagged. is_duplicate (h' a))
                    \<and> (\<forall>a. a \<notin> flagged \<longrightarrow> h' a = h a)
                    \<and> (\<forall>a. get_quality (h' a) = get_quality (h a)))))
       \<and> (n = 0 \<longrightarrow> mark_duplicates h reads n = Inr (h, reads))
       \<and> (\<forall>a b c.
            mset reads = {#a, b, c#} \<and> distinct [a, b, c]
            \<and> get_quality (h a) = 10 \<and> get_quality (h b) = 30 \<and> get_quality (h c) = 20
            \<and> \<not> is_duplicate (h b) \<longrightarrow>
            (\<exists>h'. mark_duplicates h reads 2 = Inr (h', reads)
               \<and> is_duplicate (h' a) \<and> \<not> is_duplicate (h' b) \<and> is_duplicate (h' c)))"
proof (intro conjI impI allI)
  assume "0 < n"
  then show "\<exists>h'. mark_duplicates h reads n = Inr (h', reads)
             \<and> (let sorted_reads = sort_key (\<lambda>a. get_quality (h a)) reads;
                     flagged = set (take (nat n) sorted_reads)
                 in sorted (map (\<lambda>a. get_quality (h a)) sorted_reads)
                    \<and> mset sorted_reads = mset reads
                    \<and> (\<forall>k. filter (\<lambda>a. get_quality (h a) = k) sorted_reads
                              = filter (\<lambda>a. get_quality (h a) = k) reads)
                    \<and> flagged \<subseteq> set reads
                    \<and> card flagged = nat n
                    \<and> (\<forall>a \<in> flagged. \<forall>b \<in> set reads - flagged.
                          get_quality (h a) \<le> get_quality (h b))
                    \<and> (\<forall>a \<in> flagged. is_duplicate (h' a))
                    \<and> (\<forall>a. a \<notin> flagged \<longrightarrow> h' a = h a)
                    \<and> (\<forall>a. get_quality (h' a) = get_quality (h a)))"
    using d le by (intro mark_duplicates_flags)
next
  assume "n = 0"
  then show "mark_duplicates h reads n = Inr (h, reads)"
    by (simp add: mark_duplicates_noop)
next
  fix a b c
  assume "mset reads = {#a, b, c#} \<and> distinct [a, b, c]
            \<and> get_quality (h a) = 10 \<and> get_quality (h b) = 30 \<and> get_quality (h c) = 20
            \<and> \<not> is_duplicate (h b)"
  then show "\<exists>h'. mark_duplicates h reads 2 = Inr (h', reads)
               \<and> is_duplicate (h' a) \<and> \<not> is_duplicate (h' b) \<and> is_duplicate (h' c)"
    by (intro mark_duplicates_three) simp_all
qed

theorem mark_duplicates_spec_witness:
  "(case mark_duplicates
           (\<lambda>a. \<lparr>query_name = [], query_qualities = [[4, 6], [30], [9, 11]] ! a,
                 is_duplicate = False\<rparr>)
           [1, 0, 2] 2 of
      Inl e \<Rightarrow> False
    | Inr (h', reads) \<Rightarrow>
        reads = [1, 0, 2] \<and> is_duplicate (h' 0) \<and> \<not> is_duplicate (h' 1) \<and> is_duplicate (h' 2))
   \<and> mark_duplicates
        (\<lambda>a. \<lparr>query_name = [], query_qualities = [[4, 6], [30], [9, 11]] ! a,
              is_duplicate = False\<rparr>)
        [1, 0, 2] 0
      = Inr (\<lambda>a. \<lparr>query_name = [], query_qualities = [[4, 6], [30], [9, 11]] ! a,
                   is_duplicate = False\<rparr>, [1, 0, 2])"
  using mark_duplicates_spec[of "[1, 0, 2]" 2
          "\<lambda>a. \<lparr>query_name = [], query_qualities = [[4, 6], [30], [9, 11]] ! a,
                 is_duplicate = False\<rparr>"]
        mark_duplicates_spec[of "[1, 0, 2]" 0
          "\<lambda>a. \<lparr>query_name = [], query_qualities = [[4, 6], [30], [9, 11]] ! a,
                 is_duplicate = False\<rparr>"]
  by (simp add: mark_duplicates_def get_quality_def set_duplicate_def)

section \<open>Properties of dedup_cluster\<close>

lemma nonzero_values_empty:
  "nonzero_values umi_counts = [] \<longleftrightarrow> (\<forall>(umi, val) \<in> set umi_counts. val = 0)"
  by (auto simp: nonzero_values_def filter_empty_conv)

text \<open>
  Claim C9. For a UMI count table all of whose counts are zero, \<open>dedup_cluster\<close> raises
  (\<open>max\<close> of the empty sequence of nonzero values is a \<open>ValueError\<close>) instead of
  returning an all-zero estimate.
\<close>

theorem dedup_cluster_all_zero:
  assumes "\<forall>(umi, val) \<in> set umi_counts. val = 0"
  shows "dedup_cluster fit umi_counts kmax = Inl ValueError"
  using assms nonzero_values_empty[of umi_counts] by (simp add: dedup_cluster_def)

theorem dedup_cluster_all_zero_witness:
  "dedup_cluster (\<lambda>kmax data obs i. 1) [(''A'', 0), (''C'', 0), (''G'', 0), (''T'', 0)] 10
     = Inl ValueError"
  using dedup_cluster_all_zero[of "[(''A'', 0), (''C'', 0), (''G'', 0), (''T'', 0)]"
          "\<lambda>kmax data obs i. 1" 10]
  by simp

text \<open>
  Claim C5. For a UMI count table with a nonzero count whose nonzero counts are all
  exactly 1, \<open>dedup_cluster\<close> returns the input table unchanged, whatever the mixture
  fit would have produced.
\<close>

theorem dedup_cluster_singletons:
  assumes some: "\<exists>(umi, val) \<in> set umi_counts. val \<noteq> 0"
      and ones: "\<forall>(umi, val) \<in> set umi_counts. val \<noteq> 0 \<longrightarrow> val = 1"
  shows "dedup_cluster fit umi_counts kmax = Inr umi_counts"
proof -
  from some have ne: "nonzero_values umi_counts \<noteq> []"
    using nonzero_values_empty[of umi_counts] by auto
  then obtain m where m: "py_max (nonzero_values umi_counts) = Some m"
      "m \<in> set (nonzero_values umi_counts)"
    using py_max_mem[OF ne] by (elim exE conjE)
  from m(2) ones have "m = 1" by (auto simp: nonzero_values_def)
  with m(1) show ?thesis by (simp add: dedup_cluster_def)
qed

theorem dedup_cluster_singletons_witness:
  "dedup_cluster (\<lambda>kmax data obs i. 1) [(''A'', 1), (''C'', 0), (''G'', 1), (''T'', 0)] 10
     = Inr [(''A'', 1), (''C'', 0), (''G'', 1), (''T'', 0)]"
  using dedup_cluster_singletons[of "[(''A'', 1), (''C'', 0), (''G'', 1), (''T'', 0)]"
          "\<lambda>kmax data obs i. 1" 10]
  by simp

lemma length_le_sum_positive:
  fixes xs :: "int list"
  shows "\<forall>x \<in> set xs. 1 \<le> x \<Longrightarrow> int (length xs) \<le> sum_list xs"
  by (induction xs) auto

lemma nonzero_values_positive:
  assumes "\<forall>(umi, val) \<in> set umi_counts. 0 \<le> val"
  shows "\<forall>x \<in> set (nonzero_values umi_counts). 1 \<le> x"
  using assms by (fastforce simp: nonzero_values_def)

lemma naive_le_max:
  assumes "\<forall>(umi, val) \<in> set umi_counts. 0 \<le> val"
  shows "int (n_nonzero umi_counts) \<le> sum_list (nonzero_values umi_counts)"
  unfolding n_nonzero_def
  by (rule length_le_sum_positive[OF nonzero_values_positive[OF assms]])

lemma cluster_estimate_range:
  assumes "int (n_nonzero umi_counts) \<le> sum_list (nonzero_values umi_counts)"
  shows "int (n_nonzero umi_counts) \<le> cluster_estimate fit umi_counts kmax
         \<and> cluster_estimate fit umi_counts kmax \<le> sum_list (nonzero_values umi_counts)"
  using assms by (simp add: cluster_estimate_def Let_def)

text \<open>
  Claim C4. For every UMI count table with non-negative counts and at least one nonzero
  count, the estimate that \<open>dedup_cluster\<close> passes to the apportionment is at least the
  number of nonzero UMIs and at most the sum of the nonzero counts, whatever the mixture
  fit returns. When the shortcut for a maximum of 1 does not apply, the apportionment
  then succeeds and \<open>dedup_cluster\<close> returns the nonzero UMIs with shares that sum to
  that estimate.
\<close>

theorem cluster_estimate_bounds:
  assumes nonneg: "\<forall>(umi, val) \<in> set umi_counts. 0 \<le> val"
      and some: "\<exists>(umi, val) \<in> set umi_counts. val \<noteq> 0"
  shows "int (n_nonzero umi_counts) \<le> cluster_estimate fit umi_counts kmax
         \<and> cluster_estimate fit umi_counts kmax \<le> sum_list (nonzero_values umi_counts)
         \<and> (py_max (nonzero_values umi_counts) \<noteq> Some 1 \<longrightarrow>
              (\<exists>data_dedup.
                 dedup_cluster fit umi_counts kmax
                   = Inr (UmiValues (zip (nonzero_keys umi_counts) data_dedup))
                 \<and> length data_dedup = n_nonzero umi_counts
                 \<and> sum_list data_dedup = cluster_estimate fit umi_counts kmax))"
proof -
  let ?counts = "nonzero_values umi_counts"
  let ?est = "cluster_estimate fit umi_counts kmax"
  have range: "int (n_nonzero umi_counts) \<le> ?est \<and> ?est \<le> sum_list ?counts"
    by (rule cluster_estimate_range[OF naive_le_max[OF nonneg]])
  from some have ne: "?counts \<noteq> []"
    using nonzero_values_empty[of umi_counts] by auto
  then have n1: "1 \<le> int (n_nonzero umi_counts)"
    by (cases ?counts) (simp_all add: n_nonzero_def)
  from n1 range have est: "?est \<noteq> 0" and s: "sum_list ?counts \<noteq> 0" by linarith+
  have pos: "filter (\<lambda>c. 0 < c) ?counts = ?counts"
    using nonzero_values_positive[OF nonneg] by (auto simp: filter_id_conv)
  from apportion_counts_returns[OF s est]
  obtain d where d: "apportion_counts ?counts ?est = Inr d" "length d = length ?counts"
      "sum_list d = max ?est (int (length (filter (\<lambda>c. 0 < c) ?counts)))"
    by (elim exE conjE)
  from d(3) range have sum: "sum_list d = ?est" by (simp add: pos n_nonzero_def)
  have "py_max ?counts \<noteq> Some 1 \<longrightarrow>
          (\<exists>data_dedup.
             dedup_cluster fit umi_counts kmax
               = Inr (UmiValues (zip (nonzero_keys umi_counts) data_dedup))
             \<and> length data_dedup = n_nonzero umi_counts
             \<and> sum_list data_dedup = ?est)"
  proof
    assume m1: "py_max ?counts \<noteq> Some 1"
    from py_max_mem[OF ne] obtain m where m: "py_max ?counts = Some m" by (elim exE conjE)
    with m1 have "m \<noteq> 1" by simp
    with m d(1) have "dedup_cluster fit umi_counts kmax
                        = Inr (UmiValues (zip (nonzero_keys umi_counts) d))"
      by (simp add: dedup_cluster_def)
    with d(2) sum show "\<exists>data_dedup.
             dedup_cluster fit umi_counts kmax
               = Inr (UmiValues (zip (nonzero_keys umi_counts) data_dedup))
             \<and> length data_dedup = n_nonzero umi_counts
             \<and> sum_list data_dedup = ?est"
      by (intro exI[of _ d]) (simp add: n_nonzero_def)
  qed
  with range show ?thesis by simp
qed

theorem cluster_estimate_bounds_witness:
  "n_nonzero [(''A'', 3), (''C'', 0), (''G'', 1), (''T'', 2)] = 3
   \<and> cluster_estimate (\<lambda>kmax data obs i. if i = 0 then 2 else 1)
        [(''A'', 3), (''C'', 0), (''G'', 1), (''T'', 2)] 10 = 4
   \<and> sum_list (nonzero_values [(''A'', 3), (''C'', 0), (''G'', 1), (''T'', 2)]) = 6
   \<and> dedup_cluster (\<lambda>kmax data obs i. if i = 0 then 2 else 1)
        [(''A'', 3), (''C'', 0), (''G'', 1), (''T'', 2)] 10
      = Inr [(''A'', 2), (''G'', 1), (''T'', 1)]"
  using cluster_estimate_bounds[of "[(''A'', 3), (''C'', 0), (''G'', 1), (''T'', 2)]"
          "\<lambda>kmax data obs i. if i = 0 then 2 else 1" 10]
  by (simp add: n_nonzero_def nonzero_values_def nonzero_keys_def cluster_estimate_def
        Counter_def dedup_cluster_def apportion_counts_def apportion_loop.simps
        UmiValues_def OrderedDict_def upt_rec)

section \<open>Properties of computeMedian\<close>

text \<open>
  Claim C10. \<open>computeMedian\<close> sorts its argument in place: the list the caller
  (\<open>deduplicate_counts\<close>, with the posterior draws) holds afterwards is the ascending
  permutation of the list it passed, and differs from it whenever that list was not
  already sorted.
\<close>

theorem computeMedian_sorts_in_place:
  "fst (computeMedian pi_post) = sort pi_post
   \<and> sorted (fst (computeMedian pi_post))
   \<and> mset (fst (computeMedian pi_post)) = mset pi_post
   \<and> (\<not> sorted pi_post \<longrightarrow> fst (computeMedian pi_post) \<noteq> pi_post)"
proof -
  have a: "fst (computeMedian pi_post) = sort pi_post"
    by (simp add: computeMedian_def Let_def)
  have "\<not> sorted pi_post \<longrightarrow> sort pi_post \<noteq> pi_post"
    by (metis sorted_sort)
  with a show ?thesis by simp
qed

theorem computeMedian_sorts_in_place_witness:
  "computeMedian [3 / 4, 1 / 4, 1 / 2] = ([1 / 4, 1 / 2, 3 / 4], Inr (1 / 2))
   \<and> fst (computeMedian [3 / 4, 1 / 4, 1 / 2]) \<noteq> [3 / 4, 1 / 4, 1 / 2]"
  using computeMedian_sorts_in_place[of "[3 / 4, 1 / 4, 1 / 2]"]
  by (simp add: computeMedian_def)

section \<open>deduplicate_counts on a table with zero counts\<close>

text \<open>
  Claim C2 at a concrete table. \<open>data_dedup\<close> has one entry per nonzero count, and the
  final loop zips it with all the keys and values of the table, so the loop stops after
  as many UMIs as there are nonzero counts and pairs each with the share of another UMI.
  For the table \<open>A: 0, C: 3, G: 0, T: 1\<close> and posterior draws of median \<open>1/2\<close> the
  shares are \<open>[1, 1]\<close> for \<open>C\<close> and \<open>T\<close>; the result holds \<open>A\<close> and \<open>C\<close> only, and
  \<open>G\<close> and \<open>T\<close> are missing from it.
\<close>

theorem deduplicate_counts_drops_umis:
  "deduplicate_counts (\<lambda>data n N S_prior C_prior pi_prior nsamp nthin nburn flag. [1 / 2])
     [(''A'', 0), (''C'', 3), (''G'', 0), (''T'', 1)] 1000 1 200 True None
   = Inr [(''A'', 0), (''C'', 1)]"
  by code_simp


section \<open>The two counts of usable reads on a paired UMI\<close>

text \<open>
  Claim C7 at a concrete input. The first pass counts a read when its UMI is a key of
  the table of all strings over \<open>ACGT\<close> of the UMI's length; the second pass counts it
  when \<open>read_is_good\<close> and \<open>umi_is_good\<close> hold. For one good read named
  \<open>M:1:FC:1:1101:10:20:A+C\<close> the UMI \<open>A+C\<close> is valid but is no key of the table, the
  first pass counts 0, the second counts 1, and the assertion fails.
\<close>

theorem usable_reads_assertion_fails:
  "read_umi_counts_from_reads
     [\<lparr>query_name = ''M:1:FC:1:1101:10:20:A+C'', query_qualities = [30, 30, 30],
       is_duplicate = False\<rparr>] None
     = Inr (make_umi_counts (make_umi_list 3) None)
   \<and> sum_list (map snd (make_umi_counts (make_umi_list 3) None)) = 0
   \<and> second_pass_reads (\<lambda>read. True)
        [\<lparr>query_name = ''M:1:FC:1:1101:10:20:A+C'', query_qualities = [30, 30, 30],
          is_duplicate = False\<rparr>] 0
      = Inr 1
   \<and> usable_reads_assertion (\<lambda>read. True)
        [\<lparr>query_name = ''M:1:FC:1:1101:10:20:A+C'', query_qualities = [30, 30, 30],
          is_duplicate = False\<rparr>]
      = Inl AssertionError"
  by code_simp


end
